theory Spec2Isabelle
  imports Main "HOL-Library.AList"
begin

section \<open>Characters and strings\<close>

text \<open>
  A Python \<^verbatim>\<open>str\<close> is a sequence of Unicode code points, and \<^verbatim>\<open>len\<close> and
  subscripts count code points. A character is therefore modelled by its code point
  and a string by the list of its code points.
\<close>

type_synonym uchar = nat
type_synonym ustring = "uchar list"

definition ustr :: "string \<Rightarrow> ustring" where
  "ustr s = map of_char s"

text \<open>
  \<^verbatim>\<open>RUSSIAN_UPPER = frozenset('...')\<close> lists the 32 letters U+0410 .. U+042F and
  U+0401; \<^verbatim>\<open>RUSSIAN_LOWER\<close> lists U+0430 .. U+044F and U+0451;
  \<^verbatim>\<open>RUSSIAN_ALL\<close> is their union, and the character class of \<^verbatim>\<open>RUSSIAN_RE\<close>
  (both scripts) denotes the same set.
\<close>

definition is_russian_upper :: "uchar \<Rightarrow> bool" where
  "is_russian_upper c \<longleftrightarrow> (1040 \<le> c \<and> c \<le> 1071) \<or> c = 1025"

definition is_russian_lower :: "uchar \<Rightarrow> bool" where
  "is_russian_lower c \<longleftrightarrow> (1072 \<le> c \<and> c \<le> 1103) \<or> c = 1105"

definition is_russian :: "uchar \<Rightarrow> bool" where
  "is_russian c \<longleftrightarrow> is_russian_upper c \<or> is_russian_lower c"

text \<open>\<^verbatim>\<open>has_russian(text) = bool(RUSSIAN_RE.search(text))\<close>\<close>

definition has_russian :: "ustring \<Rightarrow> bool" where
  "has_russian text = list_ex is_russian text"

section \<open>JSON documents\<close>

text \<open>
  The value \<^verbatim>\<open>json.load\<close> returns: \<^verbatim>\<open>None\<close>, a bool, a number (the type of
  numbers is left open: neither script looks inside one), a string, a list or a dict.
  A dict is kept as the list of its items in insertion order; the keys of a Python
  dict are pairwise distinct, which \<open>wf_json\<close> states for every dict of a document.
\<close>

datatype 'n json =
    JNull
  | JBool bool
  | JNum 'n
  | JStr ustring
  | JArr "'n json list"
  | JObj "(ustring \<times> 'n json) list"

fun wf_json :: "'n json \<Rightarrow> bool" where
  "wf_json (JObj items) = (distinct (map fst items) \<and> list_all (\<lambda>kv. wf_json (snd kv)) items)"
| "wf_json (JArr xs) = list_all wf_json xs"
| "wf_json _ = True"

text \<open>A path into a document: dict keys and list indices, outermost first.\<close>

datatype pstep = Key ustring | Idx nat

fun at_path :: "'n json \<Rightarrow> pstep list \<Rightarrow> 'n json option" where
  "at_path v [] = Some v"
| "at_path (JObj items) (Key k # p) =
     (case map_of items k of Some v \<Rightarrow> at_path v p | None \<Rightarrow> None)"
| "at_path (JArr xs) (Idx i # p) = (if i < length xs then at_path (xs ! i) p else None)"
| "at_path _ _ = None"

text \<open>
  Two values have the same type when they are both \<^verbatim>\<open>None\<close>, both bools, both numbers,
  both strings, both lists or both dicts.
\<close>

fun same_type :: "'n json \<Rightarrow> 'n json \<Rightarrow> bool" where
  "same_type JNull JNull = True"
| "same_type (JBool a) (JBool b) = True"
| "same_type (JNum a) (JNum b) = True"
| "same_type (JStr a) (JStr b) = True"
| "same_type (JArr a) (JArr b) = True"
| "same_type (JObj a) (JObj b) = True"
| "same_type _ _ = False"

section \<open>sync\_translations.py: merge\_recursive\<close>

lemma size_nth_less [termination_simp]:
  "i < length xs \<Longrightarrow> size (xs ! i) < Suc (size_list size xs)"
  by (metis less_Suc_eq_le nth_mem order_refl size_list_estimation')

text \<open>
  \<^verbatim>\<open>result = {}\<close> followed by \<^verbatim>\<open>result[key] = ...\<close> for every key of the artifact
  is a fold of dict assignments (\<open>AList.update\<close> overwrites the value of a key that is
  there and appends a new key at the end, as a Python dict does).
  \<^verbatim>\<open>key in resource\<close> and \<^verbatim>\<open>resource[key]\<close> are the lookup \<open>map_of resource key\<close>.
  The list branch runs \<^verbatim>\<open>i\<close> over \<^verbatim>\<open>range(max(len(artifact), len(resource)))\<close> and
  appends one element or none.
\<close>

fun merge_recursive :: "'n json \<Rightarrow> 'n json \<Rightarrow> 'n json" where
  "merge_recursive (JObj artifact) (JObj resource) =
     JObj (fold (\<lambda>(key, av) result.
              AList.update key
                (case map_of resource key of
                   Some rv \<Rightarrow> merge_recursive av rv
                 | None \<Rightarrow> av) result)
            artifact [])"
| "merge_recursive (JArr artifact) (JArr resource) =
     JArr (concat (map (\<lambda>i.
              if i < length artifact \<and> i < length resource
              then [merge_recursive (artifact ! i) (resource ! i)]
              else if i < length artifact then [artifact ! i]
              else [])
            [0..<max (length artifact) (length resource)]))"
| "merge_recursive (JStr s) resource =
     (if has_russian s then JStr s
      else case resource of JStr t \<Rightarrow> JStr t | _ \<Rightarrow> JStr s)"
| "merge_recursive artifact resource = artifact"

section \<open>fix\_capitalization.py: fix\_sentence\_case\<close>

subsection \<open>Character classes\<close>

text \<open>
  The characters the scanner tests for: the format marker U+00A7, the newline, the
  sentence-ending punctuation \<^verbatim>\<open>'.!?'\<close>, the horizontal whitespace \<^verbatim>\<open>' \t'\<close>, and the
  whitespace \<^verbatim>\<open>' \t\n'\<close> that ends the look-ahead over a word.
\<close>

definition sect :: uchar where
  "sect = 167"

definition newline :: uchar where
  "newline = 10"

definition is_sentence_end :: "uchar \<Rightarrow> bool" where
  "is_sentence_end c \<longleftrightarrow> c = 46 \<or> c = 33 \<or> c = 63"

definition is_hspace :: "uchar \<Rightarrow> bool" where
  "is_hspace c \<longleftrightarrow> c = 32 \<or> c = 9"

definition is_space_or_nl :: "uchar \<Rightarrow> bool" where
  "is_space_or_nl c \<longleftrightarrow> c = 32 \<or> c = 9 \<or> c = 10"

text \<open>
  \<^verbatim>\<open>str.upper\<close> and \<^verbatim>\<open>str.lower\<close> on the letters of \<^verbatim>\<open>RUSSIAN_ALL\<close>, the only
  characters the script applies them to: U+0430 .. U+044F and U+0410 .. U+042F are 32
  apart, U+0451 and U+0401 are a pair, and the result is one character.
\<close>

definition upper :: "uchar \<Rightarrow> uchar" where
  "upper c = (if 1072 \<le> c \<and> c \<le> 1103 then c - 32 else if c = 1105 then 1025 else c)"

definition lower :: "uchar \<Rightarrow> uchar" where
  "lower c = (if 1040 \<le> c \<and> c \<le> 1071 then c + 32 else if c = 1025 then 1105 else c)"

subsection \<open>The scanner\<close>

text \<open>
  The loop \<^verbatim>\<open>while i < n\<close> reads \<^verbatim>\<open>c = text[i]\<close>; below, \<open>rest\<close> is \<^verbatim>\<open>text[i+1:]\<close>,
  so that \<^verbatim>\<open>i + 1 < n\<close> is \<open>rest \<noteq> []\<close> and \<^verbatim>\<open>text[i + 1]\<close> is \<open>hd rest\<close>.

  \<open>skip_hspace rest\<close> is \<^verbatim>\<open>j - i\<close> after
  \<^verbatim>\<open>j = i; while j < n and text[j] in ' \t': j += 1\<close> (with \<^verbatim>\<open>i\<close> already advanced
  past the punctuation).
\<close>

fun skip_hspace :: "ustring \<Rightarrow> nat" where
  "skip_hspace [] = 0"
| "skip_hspace (d # ds) = (if is_hspace d then Suc (skip_hspace ds) else 0)"

text \<open>
  \<^verbatim>\<open>word_has_lower_russian\<close> after the scan
  \<^verbatim>\<open>j = i + 1; while j < n and text[j] not in ' \t\n': if text[j] in RUSSIAN_LOWER: ... break; j += 1\<close>.
\<close>

fun word_has_lower_russian :: "ustring \<Rightarrow> bool" where
  "word_has_lower_russian [] = False"
| "word_has_lower_russian (d # ds) =
     (if is_space_or_nl d then False
      else if is_russian_lower d then True
      else word_has_lower_russian ds)"

text \<open>
  The look-back after a punctuation followed by a space: \<open>result\<close> already ends with
  the punctuation, \<^verbatim>\<open>k = len(result) - 2\<close> is a Python integer (it is \<open>-1\<close> when the
  punctuation is the first character), and the value is true in the branch \<^verbatim>\<open>pass\<close>,
  where no boundary is set.
\<close>

definition abbreviation_before :: "ustring \<Rightarrow> bool" where
  "abbreviation_before result =
     (let k = int (length result) - 2 in
      if k \<ge> 0 \<and> is_russian (result ! nat k) then
        (let before_k = (if k > 0 then Some (result ! nat (k - 1)) else None) in
         case before_k of
           None \<Rightarrow> True
         | Some b \<Rightarrow> is_hspace b \<or> is_sentence_end b)
      else False)"

text \<open>
  One turn of the loop body on the character \<open>c\<close>, with \<open>rest\<close> after it: the text left
  to scan, the result so far and \<^verbatim>\<open>at_sentence_start\<close>, in the order of the source's
  \<^verbatim>\<open>if ... continue\<close> chain. \<open>isalpha\<close> is Python's \<^verbatim>\<open>str.isalpha\<close>, which the model
  takes as a parameter (it is a table of the Unicode database).
\<close>

definition step :: "(uchar \<Rightarrow> bool) \<Rightarrow> uchar \<Rightarrow> ustring \<Rightarrow> ustring \<Rightarrow> bool
    \<Rightarrow> ustring \<times> ustring \<times> bool" where
  "step isalpha c rest result at_sentence_start =
    (if c = sect \<and> rest \<noteq> [] then (tl rest, result @ [c, hd rest], at_sentence_start)
     else if c = newline then (rest, result @ [c], True)
     else if is_sentence_end c then
       (let result' = result @ [c] in
        if skip_hspace rest > 0 then
          (if abbreviation_before result' then (rest, result', at_sentence_start)
           else (rest, result', True))
        else (rest, result', at_sentence_start))
     else if is_hspace c then (rest, result @ [c], at_sentence_start)
     else if is_russian c then
       (if at_sentence_start then (rest, result @ [upper c], False)
        else if is_russian_upper c then
          (rest, result @ [if word_has_lower_russian rest then lower c else c], False)
        else (rest, result @ [c], False))
     else if isalpha c then (rest, result @ [c], False)
     else (rest, result @ [c], at_sentence_start))"

lemma step_shorter:
  "step isalpha c rest result st = (rest', result', st') \<Longrightarrow> length rest' < Suc (length rest)"
  by (auto simp: step_def Let_def split: if_splits)

function fix_loop :: "(uchar \<Rightarrow> bool) \<Rightarrow> ustring \<Rightarrow> ustring \<Rightarrow> bool \<Rightarrow> ustring" where
  "fix_loop isalpha [] result st = result"
| "fix_loop isalpha (c # rest) result st =
     (case step isalpha c rest result st of
        (rest', result', st') \<Rightarrow> fix_loop isalpha rest' result' st')"
  by pat_completeness auto
termination
  by (relation "measure (\<lambda>(isalpha, text, result, st). length text)")
     (auto split: prod.splits dest: step_shorter)

definition fix_sentence_case :: "(uchar \<Rightarrow> bool) \<Rightarrow> ustring \<Rightarrow> ustring" where
  "fix_sentence_case isalpha text =
     (if \<not> has_russian text then text else fix_loop isalpha text [] True)"

text \<open>
  \<^verbatim>\<open>fix_value\<close>: the dict comprehension runs over the items of a dict, whose keys are
  distinct, so it builds the items with the same keys in the same order.
\<close>

fun fix_value :: "(uchar \<Rightarrow> bool) \<Rightarrow> 'n json \<Rightarrow> 'n json" where
  "fix_value isalpha (JStr s) = JStr (fix_sentence_case isalpha s)"
| "fix_value isalpha (JObj items) = JObj (map (\<lambda>(k, v). (k, fix_value isalpha v)) items)"
| "fix_value isalpha (JArr xs) = JArr (map (fix_value isalpha) xs)"
| "fix_value isalpha obj = obj"

text \<open>
  The shape of a document: the document with the content of every string leaf erased.
  Two documents with the same shape have the same keys in the same order in every dict,
  the same length in every list, and equal leaves wherever the leaf is not a string.
\<close>

fun skeleton :: "'n json \<Rightarrow> 'n json" where
  "skeleton (JStr s) = JStr []"
| "skeleton (JObj items) = JObj (map (\<lambda>(k, v). (k, skeleton v)) items)"
| "skeleton (JArr xs) = JArr (map skeleton xs)"
| "skeleton v = v"

text \<open>An \<^verbatim>\<open>isalpha\<close> for examples: the Latin letters of ASCII.\<close>

definition latin_alpha :: "uchar \<Rightarrow> bool" where
  "latin_alpha c \<longleftrightarrow> (65 \<le> c \<and> c \<le> 90) \<or> (97 \<le> c \<and> c \<le> 122)"


section \<open>fix\_capitalization.py: the loop with its subscripts checked\<close>

text \<open>
  The same function once more, now over the indices the source uses, with every
  subscript a checked read: \<open>getitem\<close> is Python's \<^verbatim>\<open>xs[i]\<close>, which counts a negative
  index from the end and raises \<^verbatim>\<open>IndexError\<close> out of range. A raise is the value
  \<open>Inl IndexError\<close> and ends the run.
\<close>

datatype error = IndexError

definition getitem :: "'a list \<Rightarrow> int \<Rightarrow> error + 'a" where
  "getitem xs i =
     (if 0 \<le> i \<and> i < int (length xs) then Inr (xs ! nat i)
      else if i < 0 \<and> 0 \<le> int (length xs) + i then Inr (xs ! nat (int (length xs) + i))
      else Inl IndexError)"

text \<open>\<^verbatim>\<open>while j < n and text[j] in ' \t': j += 1\<close>, giving the final \<^verbatim>\<open>j\<close>.\<close>

function scan_hspace :: "ustring \<Rightarrow> nat \<Rightarrow> error + nat" where
  "scan_hspace text j =
     (if j < length text then
        (case getitem text (int j) of
           Inl e \<Rightarrow> Inl e
         | Inr d \<Rightarrow> if is_hspace d then scan_hspace text (j + 1) else Inr j)
      else Inr j)"
  by pat_completeness auto
termination
  by (relation "measure (\<lambda>(text, j). length text - j)") auto

declare scan_hspace.simps [simp del]

text \<open>
  \<^verbatim>\<open>while j < n and text[j] not in ' \t\n': if text[j] in RUSSIAN_LOWER: ... break; j += 1\<close>,
  giving \<^verbatim>\<open>word_has_lower_russian\<close>.
\<close>

function scan_word :: "ustring \<Rightarrow> nat \<Rightarrow> error + bool" where
  "scan_word text j =
     (if j < length text then
        (case getitem text (int j) of
           Inl e \<Rightarrow> Inl e
         | Inr d \<Rightarrow>
             if \<not> is_space_or_nl d then
               (if is_russian_lower d then Inr True else scan_word text (j + 1))
             else Inr False)
      else Inr False)"
  by pat_completeness auto
termination
  by (relation "measure (\<lambda>(text, j). length text - j)") auto

declare scan_word.simps [simp del]

text \<open>The look-back: true in the branch \<^verbatim>\<open>pass\<close>, false where the boundary is set.\<close>

definition lookback_ix :: "ustring \<Rightarrow> error + bool" where
  "lookback_ix result =
     (let k = int (length result) - 2 in
      if k \<ge> 0 then
        (case getitem result k of
           Inl e \<Rightarrow> Inl e
         | Inr rk \<Rightarrow>
             if is_russian rk then
               (if k > 0 then
                  (case getitem result (k - 1) of
                     Inl e \<Rightarrow> Inl e
                   | Inr b \<Rightarrow> Inr (is_hspace b \<or> is_sentence_end b))
                else Inr True)
             else Inr False)
      else Inr False)"

text \<open>One turn of the loop at index \<open>i\<close>: the next index, the result and the flag.\<close>

definition step_ix :: "(uchar \<Rightarrow> bool) \<Rightarrow> ustring \<Rightarrow> nat \<Rightarrow> ustring \<Rightarrow> bool
    \<Rightarrow> error + (nat \<times> ustring \<times> bool)" where
  "step_ix isalpha text i result at_sentence_start =
    (case getitem text (int i) of
       Inl e \<Rightarrow> Inl e
     | Inr c \<Rightarrow>
        if c = sect \<and> i + 1 < length text then
          (case getitem text (int (i + 1)) of
             Inl e \<Rightarrow> Inl e
           | Inr d \<Rightarrow> Inr (i + 2, result @ [c, d], at_sentence_start))
        else if c = newline then Inr (i + 1, result @ [c], True)
        else if is_sentence_end c then
          (case scan_hspace text (i + 1) of
             Inl e \<Rightarrow> Inl e
           | Inr j \<Rightarrow>
               if j > i + 1 then
                 (case lookback_ix (result @ [c]) of
                    Inl e \<Rightarrow> Inl e
                  | Inr abbreviation \<Rightarrow>
                      Inr (i + 1, result @ [c],
                           if abbreviation then at_sentence_start else True))
               else Inr (i + 1, result @ [c], at_sentence_start))
        else if is_hspace c then Inr (i + 1, result @ [c], at_sentence_start)
        else if is_russian c then
          (if at_sentence_start then Inr (i + 1, result @ [upper c], False)
           else if is_russian_upper c then
             (case scan_word text (i + 1) of
                Inl e \<Rightarrow> Inl e
              | Inr word_has_lower \<Rightarrow>
                  Inr (i + 1, result @ [if word_has_lower then lower c else c], False))
           else Inr (i + 1, result @ [c], False))
        else if isalpha c then Inr (i + 1, result @ [c], False)
        else Inr (i + 1, result @ [c], at_sentence_start))"

lemma step_ix_advances:
  "step_ix isalpha text i result st = Inr (i', result', st') \<Longrightarrow> i < i'"
  by (auto simp: step_ix_def split: sum.splits if_splits)

function loop_ix :: "(uchar \<Rightarrow> bool) \<Rightarrow> ustring \<Rightarrow> nat \<Rightarrow> ustring \<Rightarrow> bool \<Rightarrow> error + ustring" where
  "loop_ix isalpha text i result st =
     (if i < length text then
        (case step_ix isalpha text i result st of
           Inl e \<Rightarrow> Inl e
         | Inr (i', result', st') \<Rightarrow> loop_ix isalpha text i' result' st')
      else Inr result)"
  by pat_completeness auto
termination
  by (relation "measure (\<lambda>(isalpha, text, i, result, st). length text - i)")
     (auto dest!: step_ix_advances)

declare loop_ix.simps [simp del]

definition fix_sentence_case_ix :: "(uchar \<Rightarrow> bool) \<Rightarrow> ustring \<Rightarrow> error + ustring" where
  "fix_sentence_case_ix isalpha text =
     (if \<not> has_russian text then Inr text else loop_ix isalpha text 0 [] True)"

section \<open>Example documents\<close>

text \<open>
  The documents of the end-to-end scenario: \<^verbatim>\<open>{"a": "Hello", "b": <Cyrillic>, "c": {"d": 1}}\<close>
  merged onto \<^verbatim>\<open>{"a": "old", "b": <Cyrillic>, "c": {"d": 99}, "e": "stale"}\<close>.
\<close>

definition novyj :: ustring where
  "novyj = [1053, 1086, 1074, 1099, 1081]"

definition staryj :: ustring where
  "staryj = [1089, 1090, 1072, 1088, 1099, 1081]"

definition incoming_ex :: "int json" where
  "incoming_ex = JObj [(ustr ''a'', JStr (ustr ''Hello'')), (ustr ''b'', JStr novyj),
                       (ustr ''c'', JObj [(ustr ''d'', JNum 1)])]"

definition existing_ex :: "int json" where
  "existing_ex = JObj [(ustr ''a'', JStr (ustr ''old'')), (ustr ''b'', JStr staryj),
                       (ustr ''c'', JObj [(ustr ''d'', JNum 99)]), (ustr ''e'', JStr (ustr ''stale''))]"

text \<open>An existing document whose values have other types: \<^verbatim>\<open>{"a": 5, "c": "x"}\<close>.\<close>

definition mixed_ex :: "int json" where
  "mixed_ex = JObj [(ustr ''a'', JNum 5), (ustr ''c'', JStr (ustr ''x''))]"

lemmas ex_defs = incoming_ex_def existing_ex_def novyj_def staryj_def ustr_def
  has_russian_def is_russian_def is_russian_upper_def is_russian_lower_def

text \<open>
  \<^verbatim>\<open>"privet. mir"\<close> in Cyrillic letters, lower case, and its sentence case; a document
  with both kinds of leaf.
\<close>

definition privet_mir :: ustring where
  "privet_mir = [1087, 1088, 1080, 1074, 1077, 1090, 46, 32, 1084, 1080, 1088]"

definition Privet_Mir :: ustring where
  "Privet_Mir = [1055, 1088, 1080, 1074, 1077, 1090, 46, 32, 1052, 1080, 1088]"

definition norm_ex :: "int json" where
  "norm_ex = JObj [(ustr ''t'', JStr privet_mir),
                   (ustr ''n'', JArr [JNum 3, JBool True, JNull, JStr (ustr ''ok'')])]"

lemmas norm_defs = privet_mir_def Privet_Mir_def norm_ex_def ustr_def

section \<open>Properties of merge\_recursive\<close>

lemma update_fresh:
  "k \<notin> fst ` set al \<Longrightarrow> AList.update k v al = al @ [(k, v)]"
  by (induction al) auto

lemma fold_update_distinct:
  "distinct (map fst items) \<Longrightarrow> fst ` set items \<inter> fst ` set acc = {} \<Longrightarrow>
   fold (\<lambda>(k, v) result. AList.update k (f k v) result) items acc
     = acc @ map (\<lambda>(k, v). (k, f k v)) items"
proof (induction items arbitrary: acc)
  case Nil
  then show ?case by simp
next
  case (Cons kv items)
  obtain k v where kv: "kv = (k, v)" by (cases kv)
  from Cons.prems have fresh: "k \<notin> fst ` set acc" by (auto simp: kv)
  have "fst ` set items \<inter> fst ` set (acc @ [(k, f k v)]) = {}"
    using Cons.prems by (auto simp: kv)
  with Cons.IH [of "acc @ [(k, f k v)]"] Cons.prems
  show ?case by (simp add: kv update_fresh [OF fresh])
qed

lemma merge_obj:
  assumes "distinct (map fst artifact)"
  shows "merge_recursive (JObj artifact) (JObj resource) =
    JObj (map (\<lambda>(k, av). (k, case map_of resource k of
                               Some rv \<Rightarrow> merge_recursive av rv | None \<Rightarrow> av)) artifact)"
  using fold_update_distinct [OF assms, of "[]"
     "\<lambda>k av. case map_of resource k of Some rv \<Rightarrow> merge_recursive av rv | None \<Rightarrow> av"]
  by simp

lemma concat_map_upt_split:
  assumes "\<And>i. i < n \<Longrightarrow> f i = [g i]" and "\<And>i. n \<le> i \<Longrightarrow> f i = []" and "n \<le> m"
  shows "concat (map f [0..<m]) = map g [0..<n]"
proof -
  have "[0..<m] = [0..<n] @ [n..<m]"
    using assms(3) by (metis le_add_diff_inverse upt_add_eq_append zero_le)
  moreover have "concat (map f [0..<n]) = map g [0..<n]"
    using assms(1) by (induction n) auto
  moreover have "concat (map f [n..<m]) = []"
    using assms(2) by auto
  ultimately show ?thesis by simp
qed

lemma merge_arr:
  "merge_recursive (JArr artifact) (JArr resource) =
     JArr (map (\<lambda>i. if i < length resource
                     then merge_recursive (artifact ! i) (resource ! i)
                     else artifact ! i) [0..<length artifact])"
  by (simp, rule concat_map_upt_split) auto


lemma wf_json_item: "wf_json (JObj items) \<Longrightarrow> (k, v) \<in> set items \<Longrightarrow> wf_json v"
  by (auto simp: list_all_iff)

lemma wf_json_elem: "wf_json (JArr xs) \<Longrightarrow> i < length xs \<Longrightarrow> wf_json (xs ! i)"
  by (auto simp: list_all_iff)

lemma merge_self: "wf_json t \<Longrightarrow> merge_recursive t t = t"
proof (induction t)
  case (JArr xs)
  have "\<And>i. i < length xs \<Longrightarrow> merge_recursive (xs ! i) (xs ! i) = xs ! i"
    using JArr by (auto simp: list_all_iff)
  then show ?case
    by (simp only: merge_arr) (auto intro: nth_equalityI)
next
  case (JObj items)
  have dist: "distinct (map fst items)" using JObj.prems by simp
  have "(case map_of items k of Some rv \<Rightarrow> merge_recursive v rv | None \<Rightarrow> v) = v"
    if "(k, v) \<in> set items" for k v
  proof -
    have "map_of items k = Some v" using dist that by simp
    moreover have "merge_recursive v v = v"
      using JObj.IH [of "(k, v)" v] JObj.prems that by (auto simp: list_all_iff)
    ultimately show ?thesis by simp
  qed
  then have "map (\<lambda>(k, av). (k, case map_of items k of
                 Some rv \<Rightarrow> merge_recursive av rv | None \<Rightarrow> av)) items = items"
    by (intro map_idI) auto
  then show ?case by (simp only: merge_obj [OF dist])
qed simp_all


lemma map_of_map_merge:
  "map_of (map (\<lambda>(k, av). (k, f k av)) items) k =
     (case map_of items k of Some v \<Rightarrow> Some (f k v) | None \<Rightarrow> None)"
  by (induction items) auto

lemma wf_json_lookup: "wf_json (JObj items) \<Longrightarrow> map_of items k = Some v \<Longrightarrow> wf_json v"
  by (meson map_of_SomeD wf_json_item)

lemma at_path_merge:
  "wf_json I \<Longrightarrow> at_path I p = Some x \<Longrightarrow> at_path E p = Some y \<Longrightarrow>
   at_path (merge_recursive I E) p = Some (merge_recursive x y)"
proof (induction p arbitrary: I E)
  case Nil
  then show ?case by simp
next
  case (Cons s p)
  show ?case
  proof (cases s)
    case (Key k)
    from Cons.prems(2) Key obtain a v where I: "I = JObj a" and v: "map_of a k = Some v"
      and xv: "at_path v p = Some x"
      by (cases I) (auto split: option.splits)
    from Cons.prems(3) Key obtain e w where E: "E = JObj e" and w: "map_of e k = Some w"
      and yw: "at_path w p = Some y"
      by (cases E) (auto split: option.splits)
    have dist: "distinct (map fst a)" using Cons.prems(1) I by simp
    have wfv: "wf_json v" using Cons.prems(1) v unfolding I by (rule wf_json_lookup)
    show ?thesis
      using Cons.IH [OF wfv xv yw]
      by (simp add: I E Key merge_obj [OF dist] map_of_map_merge v w del: merge_recursive.simps(1,2))
  next
    case (Idx i)
    from Cons.prems(2) Idx obtain a where I: "I = JArr a" and ia: "i < length a"
      and xv: "at_path (a ! i) p = Some x"
      by (cases I) (auto split: if_splits)
    from Cons.prems(3) Idx obtain e where E: "E = JArr e" and ie: "i < length e"
      and yw: "at_path (e ! i) p = Some y"
      by (cases E) (auto split: if_splits)
    have wfv: "wf_json (a ! i)" using Cons.prems(1) ia unfolding I by (rule wf_json_elem)
    show ?thesis
      using Cons.IH [OF wfv xv yw] ia ie
      by (simp add: I E Idx merge_arr del: merge_recursive.simps(1,2))
  qed
qed

lemma merge_not_both:
  "\<not> (\<exists>a e. I = JObj a \<and> E = JObj e) \<Longrightarrow> \<not> (\<exists>a e. I = JArr a \<and> E = JArr e) \<Longrightarrow>
   (\<forall>s. I \<noteq> JStr s) \<Longrightarrow> merge_recursive I E = I"
  by (cases I; cases E) auto

lemma merge_str_is_str: "\<exists>t. merge_recursive (JStr s) E = JStr t"
  by (cases E) auto

lemma at_path_str: "at_path (JStr s) p = Some x \<Longrightarrow> p = [] \<and> x = JStr s"
  by (cases p) auto

lemma at_path_merge_obj:
  "wf_json I \<Longrightarrow> at_path (merge_recursive I E) p = Some (JObj m) \<Longrightarrow>
   \<exists>a. at_path I p = Some (JObj a) \<and> map fst m = map fst a"
proof (induction p arbitrary: I E)
  case Nil
  show ?case
  proof (cases "\<exists>a e. I = JObj a \<and> E = JObj e")
    case True
    then obtain a e where I: "I = JObj a" and E: "E = JObj e" by blast
    have dist: "distinct (map fst a)" using Nil.prems(1) I by simp
    show ?thesis using Nil.prems(2)
      by (auto simp: I E merge_obj [OF dist] simp del: merge_recursive.simps(1,2))
  next
    case False
    show ?thesis
    proof (cases I)
      case (JStr s)
      then show ?thesis using Nil.prems(2) merge_str_is_str [of s E] by auto
    next
      case (JArr a)
      then show ?thesis using Nil.prems(2) by (cases E) auto
    qed (use Nil.prems(2) False in \<open>auto simp: merge_not_both\<close>)
  qed
next
  case (Cons s p)
  show ?case
  proof (cases "\<exists>a e. I = JObj a \<and> E = JObj e")
    case True
    then obtain a e where I: "I = JObj a" and E: "E = JObj e" by blast
    have dist: "distinct (map fst a)" using Cons.prems(1) I by simp
    let ?f = "\<lambda>k av. case map_of e k of Some rv \<Rightarrow> merge_recursive av rv | None \<Rightarrow> av"
    have m: "merge_recursive I E = JObj (map (\<lambda>(k, av). (k, ?f k av)) a)"
      by (simp only: I E merge_obj [OF dist])
    from Cons.prems(2) obtain k where s: "s = Key k"
      by (cases s) (auto simp: m)
    from Cons.prems(2) obtain v where v: "map_of a k = Some v"
      and pv: "at_path (?f k v) p = Some (JObj m)"
      by (auto simp: m s map_of_map_merge split: option.splits)
    have wfv: "wf_json v" using Cons.prems(1) v unfolding I by (rule wf_json_lookup)
    show ?thesis
    proof (cases "map_of e k")
      case None
      then show ?thesis using pv v by (simp add: I s)
    next
      case (Some w)
      then show ?thesis using Cons.IH [OF wfv, of w] pv v by (simp add: I s)
    qed
  next
    case notobj: False
    show ?thesis
    proof (cases "\<exists>a e. I = JArr a \<and> E = JArr e")
      case True
      then obtain a e where I: "I = JArr a" and E: "E = JArr e" by blast
      from Cons.prems(2) obtain i where s: "s = Idx i"
        by (cases s) (auto simp: I E merge_arr simp del: merge_recursive.simps(1,2))
      from Cons.prems(2) have ia: "i < length a"
        by (auto simp: I E s merge_arr simp del: merge_recursive.simps split: if_splits)
      have wfv: "wf_json (a ! i)" using Cons.prems(1) ia unfolding I by (rule wf_json_elem)
      show ?thesis
      proof (cases "i < length e")
        case True
        then show ?thesis using Cons.IH [OF wfv, of "e ! i"] Cons.prems(2) ia
          by (simp add: I E s merge_arr del: merge_recursive.simps(1,2))
      next
        case False
        then show ?thesis using Cons.prems(2) ia
          by (simp add: I E s merge_arr del: merge_recursive.simps(1,2))
      qed
    next
      case notarr: False
      show ?thesis
      proof (cases "\<exists>s. I = JStr s")
        case True
        then obtain t where I: "I = JStr t" by blast
        obtain u where "merge_recursive I E = JStr u"
          using merge_str_is_str [of t E] I by auto
        then show ?thesis using Cons.prems(2) by (auto dest: at_path_str)
      next
        case False
        then have "merge_recursive I E = I"
          using notobj notarr by (intro merge_not_both) auto
        then show ?thesis using Cons.prems(2) by auto
      qed
    qed
  qed
qed

lemma wf_at_path: "wf_json I \<Longrightarrow> at_path I p = Some x \<Longrightarrow> wf_json x"
proof (induction p arbitrary: I)
  case Nil
  then show ?case by simp
next
  case (Cons s p)
  show ?case
  proof (cases s)
    case (Key k)
    from Cons.prems(2) Key obtain a v where I: "I = JObj a" and v: "map_of a k = Some v"
      and xv: "at_path v p = Some x"
      by (cases I) (auto split: option.splits)
    have "wf_json v" using Cons.prems(1) v unfolding I by (rule wf_json_lookup)
    then show ?thesis using xv by (rule Cons.IH)
  next
    case (Idx i)
    from Cons.prems(2) Idx obtain a where I: "I = JArr a" and ia: "i < length a"
      and xv: "at_path (a ! i) p = Some x"
      by (cases I) (auto split: if_splits)
    have "wf_json (a ! i)" using Cons.prems(1) ia unfolding I by (rule wf_json_elem)
    then show ?thesis using xv by (rule Cons.IH)
  qed
qed

lemma merge_mismatch: "\<not> same_type x y \<Longrightarrow> merge_recursive x y = x"
  by (cases x; cases y) auto

lemma merge_obj_keys:
  "wf_json (JObj a) \<Longrightarrow> \<exists>m. merge_recursive (JObj a) E = JObj m \<and> map fst m = map fst a"
proof (cases E)
  case (JObj e)
  assume "wf_json (JObj a)"
  then have dist: "distinct (map fst a)" by simp
  show ?thesis unfolding JObj by (simp only: merge_obj [OF dist]) (simp add: case_prod_unfold comp_def)
qed auto

lemma at_path_merge_incoming:
  "wf_json I \<Longrightarrow> at_path I p = Some x \<Longrightarrow>
   \<exists>y. at_path (merge_recursive I E) p = Some y \<and> (y = x \<or> (\<exists>E'. y = merge_recursive x E'))"
proof (induction p arbitrary: I E)
  case Nil
  then show ?case by auto
next
  case (Cons s p)
  show ?case
  proof (cases s)
    case (Key k)
    from Cons.prems(2) Key obtain a v where I: "I = JObj a" and v: "map_of a k = Some v"
      and xv: "at_path v p = Some x"
      by (cases I) (auto split: option.splits)
    have dist: "distinct (map fst a)" using Cons.prems(1) I by simp
    have wfv: "wf_json v" using Cons.prems(1) v unfolding I by (rule wf_json_lookup)
    show ?thesis
    proof (cases "\<exists>e w. E = JObj e \<and> map_of e k = Some w")
      case True
      then obtain e w where E: "E = JObj e" and w: "map_of e k = Some w" by blast
      show ?thesis
        using Cons.IH [OF wfv xv, of w]
        by (simp add: I E Key merge_obj [OF dist] map_of_map_merge v w del: merge_recursive.simps(1,2))
    next
      case False
      have "at_path (merge_recursive I E) (s # p) = Some x"
      proof (cases E)
        case (JObj e)
        with False have "map_of e k = None" by auto
        then show ?thesis using xv
          by (simp add: I JObj Key merge_obj [OF dist] map_of_map_merge v del: merge_recursive.simps(1,2))
      qed (use Cons.prems(2) in \<open>auto simp: I\<close>)
      then show ?thesis by simp
    qed
  next
    case (Idx i)
    from Cons.prems(2) Idx obtain a where I: "I = JArr a" and ia: "i < length a"
      and xv: "at_path (a ! i) p = Some x"
      by (cases I) (auto split: if_splits)
    have wfv: "wf_json (a ! i)" using Cons.prems(1) ia unfolding I by (rule wf_json_elem)
    show ?thesis
    proof (cases "\<exists>e. E = JArr e \<and> i < length e")
      case True
      then obtain e where E: "E = JArr e" and ie: "i < length e" by blast
      show ?thesis
        using Cons.IH [OF wfv xv, of "e ! i"] ia ie
        by (simp add: I E Idx merge_arr del: merge_recursive.simps(1,2))
    next
      case False
      have "at_path (merge_recursive I E) (s # p) = Some x"
      proof (cases E)
        case (JArr e)
        with False have "\<not> i < length e" by auto
        then show ?thesis using xv ia
          by (simp add: I JArr Idx merge_arr del: merge_recursive.simps(1,2))
      qed (use Cons.prems(2) in \<open>auto simp: I\<close>)
      then show ?thesis by simp
    qed
  qed
qed

lemma at_path_incoming_obj:
  assumes "wf_json I" and "at_path I p = Some (JObj a)"
  shows "\<exists>m. at_path (merge_recursive I E) p = Some (JObj m) \<and> map fst m = map fst a"
proof -
  have wfa: "wf_json (JObj a)" using assms by (rule wf_at_path)
  from at_path_merge_incoming [OF assms, of E]
  obtain y where y: "at_path (merge_recursive I E) p = Some y"
    and d: "y = JObj a \<or> (\<exists>E'. y = merge_recursive (JObj a) E')" by blast
  from d merge_obj_keys [OF wfa] have "\<exists>m. y = JObj m \<and> map fst m = map fst a"
    by metis
  with y show ?thesis by simp
qed

subsection \<open>The claims about the merge\<close>

text \<open>
  C1 (merge key-set law). Let the dicts of the incoming document \<open>I\<close> have distinct keys.
  Where \<open>I\<close> and the existing document \<open>E\<close> both hold a dict at a common path \<open>p\<close>, the
  merge holds a dict at \<open>p\<close> with exactly the keys of \<open>I\<close> there, in the same order; the
  value of a key is the recursive merge when \<open>E\<close> has the key and the value of \<open>I\<close>
  otherwise, and a key of \<open>E\<close> alone does not appear. Where the two values at a common
  path \<open>r\<close> have different types, the merge holds the incoming value there, whole.
  So the law holds at every level: every dict of \<open>I\<close>, at whatever path \<open>q\<close>, is a dict of
  the merge at \<open>q\<close> with the same keys, and every dict of the merge, at whatever path
  \<open>q'\<close>, sits where \<open>I\<close> has a dict with the same keys.
\<close>

theorem merge_key_set_law:
  assumes "wf_json I"
  shows "(at_path I p = Some (JObj a) \<and> at_path E p = Some (JObj e) \<longrightarrow>
            (\<exists>m. at_path (merge_recursive I E) p = Some (JObj m) \<and>
                 map fst m = map fst a \<and>
                 m = map (\<lambda>(k, v). (k, case map_of e k of
                                          Some w \<Rightarrow> merge_recursive v w
                                        | None \<Rightarrow> v)) a))
       \<and> (at_path I r = Some x \<and> at_path E r = Some y \<and> \<not> same_type x y \<longrightarrow>
            at_path (merge_recursive I E) r = Some x)
       \<and> (at_path I q = Some (JObj b) \<longrightarrow>
            (\<exists>m. at_path (merge_recursive I E) q = Some (JObj m) \<and> map fst m = map fst b))
       \<and> (at_path (merge_recursive I E) q' = Some (JObj m') \<longrightarrow>
            (\<exists>a'. at_path I q' = Some (JObj a') \<and> map fst m' = map fst a'))"
proof (intro conjI impI)
  assume both: "at_path I p = Some (JObj a) \<and> at_path E p = Some (JObj e)"
  then have "wf_json (JObj a)" using assms wf_at_path by blast
  then have dist: "distinct (map fst a)" by simp
  have "at_path (merge_recursive I E) p = Some (merge_recursive (JObj a) (JObj e))"
    using assms both by (simp add: at_path_merge)
  then show "\<exists>m. at_path (merge_recursive I E) p = Some (JObj m) \<and>
                 map fst m = map fst a \<and>
                 m = map (\<lambda>(k, v). (k, case map_of e k of
                                          Some w \<Rightarrow> merge_recursive v w
                                        | None \<Rightarrow> v)) a"
    by (simp only: merge_obj [OF dist]) (simp add: case_prod_unfold comp_def)
next
  assume mis: "at_path I r = Some x \<and> at_path E r = Some y \<and> \<not> same_type x y"
  then have "at_path (merge_recursive I E) r = Some (merge_recursive x y)"
    using assms by (simp add: at_path_merge)
  with mis show "at_path (merge_recursive I E) r = Some x"
    by (simp add: merge_mismatch)
next
  assume "at_path I q = Some (JObj b)"
  with assms show "\<exists>m. at_path (merge_recursive I E) q = Some (JObj m) \<and> map fst m = map fst b"
    by (rule at_path_incoming_obj)
next
  assume "at_path (merge_recursive I E) q' = Some (JObj m')"
  with assms show "\<exists>a'. at_path I q' = Some (JObj a') \<and> map fst m' = map fst a'"
    by (rule at_path_merge_obj)
qed

theorem merge_key_set_law_witness:
  "wf_json incoming_ex
   \<and> at_path incoming_ex [] = Some incoming_ex
   \<and> at_path existing_ex [] = Some existing_ex
   \<and> at_path (merge_recursive incoming_ex existing_ex) [Key (ustr ''c'')]
       = Some (JObj [(ustr ''d'', JNum 1)])
   \<and> (\<exists>m. at_path (merge_recursive incoming_ex existing_ex) [] = Some (JObj m)
          \<and> map fst m = [ustr ''a'', ustr ''b'', ustr ''c''])
   \<and> (\<exists>a'. at_path incoming_ex [Key (ustr ''c'')] = Some (JObj a')
          \<and> map fst [(ustr ''d'', JNum (1::int))] = map fst a')
   \<and> at_path incoming_ex [Key (ustr ''c'')] = Some (JObj [(ustr ''d'', JNum 1)])
   \<and> at_path mixed_ex [Key (ustr ''c'')] = Some (JStr (ustr ''x''))
   \<and> \<not> same_type (JObj [(ustr ''d'', JNum (1::int))]) (JStr (ustr ''x''))
   \<and> at_path (merge_recursive incoming_ex mixed_ex) [Key (ustr ''c'')]
       = Some (JObj [(ustr ''d'', JNum 1)])
   \<and> (\<exists>m. at_path (merge_recursive incoming_ex mixed_ex) [Key (ustr ''c'')] = Some (JObj m)
          \<and> map fst m = [ustr ''d''])"
proof -
  have wf: "wf_json incoming_ex" by (simp add: ex_defs)
  have c: "at_path (merge_recursive incoming_ex existing_ex) [Key (ustr ''c'')]
             = Some (JObj [(ustr ''d'', JNum 1)])"
    by (simp add: ex_defs)
  have i: "at_path incoming_ex [] = Some (JObj [(ustr ''a'', JStr (ustr ''Hello'')),
             (ustr ''b'', JStr novyj), (ustr ''c'', JObj [(ustr ''d'', JNum 1)])])"
    by (simp add: incoming_ex_def)
  have e: "at_path existing_ex [] = Some (JObj [(ustr ''a'', JStr (ustr ''old'')),
             (ustr ''b'', JStr staryj), (ustr ''c'', JObj [(ustr ''d'', JNum 99)]),
             (ustr ''e'', JStr (ustr ''stale''))])"
    by (simp add: existing_ex_def)
  have ic: "at_path incoming_ex [Key (ustr ''c'')] = Some (JObj [(ustr ''d'', JNum 1)])"
    by (simp add: ex_defs)
  have mc: "at_path mixed_ex [Key (ustr ''c'')] = Some (JStr (ustr ''x''))"
    by (simp add: mixed_ex_def ex_defs)
  have ns: "\<not> same_type (JObj [(ustr ''d'', JNum (1::int))]) (JStr (ustr ''x''))"
    by simp
  note law = merge_key_set_law [OF wf, of "[]" _ existing_ex _ "[]" incoming_ex existing_ex
      "[]" _ "[Key (ustr ''c'')]" "[(ustr ''d'', JNum 1)]"]
  note mis = merge_key_set_law [OF wf, of "[]" _ mixed_ex _ "[Key (ustr ''c'')]"
      "JObj [(ustr ''d'', JNum 1)]" "JStr (ustr ''x'')" "[Key (ustr ''c'')]" "[(ustr ''d'', JNum 1)]"]
  have A: "\<exists>m. at_path (merge_recursive incoming_ex existing_ex) [] = Some (JObj m)
          \<and> map fst m = [ustr ''a'', ustr ''b'', ustr ''c'']"
    using law i e by auto
  have B: "\<exists>a'. at_path incoming_ex [Key (ustr ''c'')] = Some (JObj a')
          \<and> map fst [(ustr ''d'', JNum (1::int))] = map fst a'"
    using law c by blast
  have C: "at_path (merge_recursive incoming_ex mixed_ex) [Key (ustr ''c'')]
       = Some (JObj [(ustr ''d'', JNum 1)])"
    using mis ic mc ns by blast
  have D: "\<exists>m. at_path (merge_recursive incoming_ex mixed_ex) [Key (ustr ''c'')] = Some (JObj m)
          \<and> map fst m = [ustr ''d'']"
    using mis ic by auto
  from wf i e c A B ic mc ns C D show ?thesis by (simp add: incoming_ex_def existing_ex_def)
qed

text \<open>
  C2 (string leaves). An incoming string with a Cyrillic letter is the result, whatever
  the existing value is; an incoming string with none gives way to an existing string,
  and is the result when the existing value is not a string.
\<close>

theorem merge_string_leaf:
  "(has_russian s \<longrightarrow> merge_recursive (JStr s) E = JStr s)
   \<and> (\<not> has_russian u \<longrightarrow> merge_recursive (JStr u) (JStr t) = JStr t)
   \<and> (\<not> has_russian u \<and> (\<forall>t'. E' \<noteq> JStr t') \<longrightarrow> merge_recursive (JStr u) E' = JStr u)"
  by (cases E') auto

theorem merge_string_leaf_witness:
  "has_russian novyj \<and> merge_recursive (JStr novyj) (JStr staryj :: int json) = JStr novyj
   \<and> \<not> has_russian (ustr ''Hello'')
   \<and> merge_recursive (JStr (ustr ''Hello'')) (JStr (ustr ''old'') :: int json) = JStr (ustr ''old'')
   \<and> (\<forall>t'. (JNum 7 :: int json) \<noteq> JStr t')
   \<and> merge_recursive (JStr (ustr ''Hello'')) (JNum 7 :: int json) = JStr (ustr ''Hello'')"
proof -
  have r: "has_russian novyj" by (simp add: ex_defs)
  have n: "\<not> has_russian (ustr ''Hello'')" by (simp add: ex_defs)
  from r n merge_string_leaf [of novyj "JStr staryj :: int json" "ustr ''Hello''"
      "ustr ''old''" "JNum 7"]
  show ?thesis by simp
qed

text \<open>
  C7 (sequences). The merge of two lists has the length of the incoming list: index
  \<open>i\<close> holds the merge of the two elements when the existing list has index \<open>i\<close>, and
  the incoming element otherwise; the tail of a longer existing list is dropped.
\<close>

theorem merge_sequence:
  "\<exists>m. merge_recursive (JArr a) (JArr e) = JArr m \<and> length m = length a
     \<and> (\<forall>i<length a. m ! i = (if i < length e then merge_recursive (a ! i) (e ! i) else a ! i))"
  by (simp only: merge_arr) simp

theorem merge_sequence_witness:
  "\<exists>m. merge_recursive (JArr [JStr (ustr ''Hello''), JNum (1::int)]) (JArr [JStr (ustr ''old'')]) = JArr m
     \<and> length m = 2 \<and> m ! 0 = JStr (ustr ''old'') \<and> m ! 1 = JNum 1"
  using merge_sequence [of "[JStr (ustr ''Hello''), JNum (1::int)]" "[JStr (ustr ''old'')]"]
  by (auto simp: ex_defs)

text \<open>
  C10 (merging a document with itself). For every document whose dicts have distinct
  keys, as every Python dict has, \<open>merge_recursive T T = T\<close>.
\<close>

theorem merge_idempotent_self:
  assumes "wf_json T"
  shows "merge_recursive T T = T"
  using assms by (rule merge_self)

theorem merge_idempotent_self_witness:
  "wf_json existing_ex \<and> merge_recursive existing_ex existing_ex = existing_ex"
proof -
  have wf: "wf_json existing_ex" by (simp add: ex_defs)
  from wf merge_idempotent_self [OF wf] show ?thesis by simp
qed

section \<open>Properties of fix\_sentence\_case and fix\_value\<close>

lemmas char_defs = sect_def newline_def is_sentence_end_def is_hspace_def is_space_or_nl_def
  is_russian_def is_russian_upper_def is_russian_lower_def upper_def lower_def

lemma russian_not_special:
  "is_russian c \<Longrightarrow> c \<noteq> sect \<and> c \<noteq> newline \<and> \<not> is_sentence_end c \<and> \<not> is_hspace c \<and> \<not> is_space_or_nl c"
  by (auto simp: char_defs)

lemma upper_is_upper: "is_russian c \<Longrightarrow> is_russian_upper (upper c)"
  by (auto simp: char_defs)

lemma upper_upper: "upper (upper c) = upper c"
  by (auto simp: char_defs)

lemma lower_is_lower: "is_russian_upper c \<Longrightarrow> is_russian_lower (lower c)"
  by (auto simp: char_defs)

lemma upper_not_lower: "is_russian_upper c \<Longrightarrow> \<not> is_russian_lower c"
  by (auto simp: char_defs)

lemma step_shape:
  "step isalpha c rest res st = (rest', res', st') \<Longrightarrow>
   \<exists>e. res' = res @ e \<and> e \<noteq> [] \<and> length e + length rest' = Suc (length rest)"
  by (cases rest) (auto simp: step_def Let_def split: if_splits)

lemma fix_loop_append:
  "\<exists>tail. fix_loop isalpha rest res st = res @ tail \<and> length tail = length rest"
proof (induction isalpha rest res st rule: fix_loop.induct)
  case (1 isalpha result st)
  then show ?case by simp
next
  case (2 isalpha c rest result st)
  obtain rest' res' st' where s: "step isalpha c rest result st = (rest', res', st')"
    by (cases "step isalpha c rest result st") auto
  from step_shape [OF s] obtain e where e: "res' = result @ e"
    "length e + length rest' = Suc (length rest)" by blast
  from "2.IH" [OF s [symmetric] refl] obtain tail where
    "fix_loop isalpha rest' res' st' = res' @ tail" "length tail = length rest'" by blast
  then show ?case using s e by simp
qed


lemma sect_plain: "\<not> is_space_or_nl sect \<and> \<not> is_russian_lower sect \<and> \<not> is_hspace sect"
  by (simp add: char_defs)

lemma upper_plain: "is_russian c \<Longrightarrow> \<not> is_space_or_nl (upper c) \<and> \<not> is_russian_lower (upper c)
    \<and> \<not> is_hspace (upper c)"
  by (auto simp: char_defs)

lemma lower_plain: "is_russian_upper c \<Longrightarrow> \<not> is_hspace (lower c)"
  by (auto simp: char_defs)

lemma skip_hspace_pos: "(0 < skip_hspace xs) = (xs \<noteq> [] \<and> is_hspace (hd xs))"
  by (cases xs) auto

lemma step_head_hspace:
  "step isalpha c rest res st = (rest', res @ e, st') \<Longrightarrow> is_hspace (hd e) = is_hspace c"
  by (cases rest)
     (auto simp: step_def Let_def sect_plain upper_plain lower_plain russian_not_special
           is_russian_def split: if_splits)

lemma loop_unfold:
  assumes "fix_loop isalpha (c # rest) res st = res @ tail"
  obtains rest' e st' tail' where
    "step isalpha c rest res st = (rest', res @ e, st')"
    "e \<noteq> []" "length e + length rest' = Suc (length rest)"
    "fix_loop isalpha rest' (res @ e) st' = (res @ e) @ tail'"
    "length tail' = length rest'"
    "tail = e @ tail'"
proof -
  obtain rest' res' st' where s: "step isalpha c rest res st = (rest', res', st')"
    by (cases "step isalpha c rest res st") auto
  from step_shape [OF s] obtain e where e: "res' = res @ e" "e \<noteq> []"
    "length e + length rest' = Suc (length rest)" by blast
  from fix_loop_append [of isalpha rest' res' st'] obtain tail' where
    t: "fix_loop isalpha rest' res' st' = res' @ tail'" "length tail' = length rest'" by blast
  from assms s t e have "tail = e @ tail'" by simp
  with s e t that show thesis by simp
qed

lemma loop_head_hspace:
  assumes "fix_loop isalpha rest res st = res @ tail"
  shows "(0 < skip_hspace tail) = (0 < skip_hspace rest)"
proof (cases rest)
  case Nil
  with assms show ?thesis by simp
next
  case (Cons c r)
  from assms [unfolded Cons] obtain rest' e st' tail' where
    s: "step isalpha c r res st = (rest', res @ e, st')" and "e \<noteq> []" and "tail = e @ tail'"
    by (rule loop_unfold)
  then show ?thesis
    using step_head_hspace [OF s] by (simp add: skip_hspace_pos Cons)
qed

lemma step_no_lower:
  "step isalpha c rest res st = (rest', res @ e, st') \<Longrightarrow>
   \<not> word_has_lower_russian (c # rest) \<Longrightarrow>
   (\<not> word_has_lower_russian rest' \<Longrightarrow> \<not> word_has_lower_russian tail') \<Longrightarrow>
   \<not> word_has_lower_russian (e @ tail')"
  by (cases rest)
     (auto simp: step_def Let_def sect_plain upper_plain russian_not_special
           split: if_splits)

lemma loop_no_lower:
  "fix_loop isalpha rest res st = res @ tail \<Longrightarrow>
   \<not> word_has_lower_russian rest \<Longrightarrow> \<not> word_has_lower_russian tail"
proof (induction isalpha rest res st arbitrary: tail rule: fix_loop.induct)
  case (1 isalpha result st)
  then show ?case by simp
next
  case (2 isalpha c rest result st)
  from "2.prems"(1) obtain rest' e st' tail' where
    s: "step isalpha c rest result st = (rest', result @ e, st')"
    and l: "fix_loop isalpha rest' (result @ e) st' = (result @ e) @ tail'"
    and t: "tail = e @ tail'"
    by (rule loop_unfold)
  have "\<not> word_has_lower_russian rest' \<Longrightarrow> \<not> word_has_lower_russian tail'"
    using "2.IH" [OF s [symmetric] refl l] .
  with step_no_lower [OF s "2.prems"(2)] show ?case unfolding t by blast
qed


lemma upper_class:
  "is_russian c \<Longrightarrow> is_russian (upper c) \<and> upper c \<noteq> sect \<and> upper c \<noteq> newline
     \<and> \<not> is_sentence_end (upper c)"
  by (auto simp: char_defs)

lemma lower_class:
  "is_russian_upper c \<Longrightarrow> is_russian (lower c) \<and> \<not> is_russian_upper (lower c)
     \<and> lower c \<noteq> sect \<and> lower c \<noteq> newline \<and> \<not> is_sentence_end (lower c)"
  by (auto simp: char_defs)

lemma step_pair: "step isalpha sect (d # r) res st = (r, res @ [sect, d], st)"
  by (simp add: step_def)

lemma step_newline: "step isalpha newline rest res st = (rest, res @ [newline], True)"
  by (simp add: step_def sect_def newline_def)

lemma step_sentence_end:
  "is_sentence_end c \<Longrightarrow> step isalpha c rest res st =
     (rest, res @ [c], if 0 < skip_hspace rest \<and> \<not> abbreviation_before (res @ [c]) then True else st)"
  by (auto simp: step_def Let_def is_sentence_end_def sect_def newline_def)

lemma step_russian:
  "is_russian c \<Longrightarrow> step isalpha c rest res st =
     (rest, res @ [if st then upper c
                   else if is_russian_upper c \<and> word_has_lower_russian rest then lower c
                   else c], False)"
  by (simp add: step_def russian_not_special)

lemma step_other:
  "\<not> (c = sect \<and> rest \<noteq> []) \<Longrightarrow> c \<noteq> newline \<Longrightarrow> \<not> is_sentence_end c \<Longrightarrow> \<not> is_russian c \<Longrightarrow>
   step isalpha c rest res st =
     (rest, res @ [c], if is_hspace c then st else if isalpha c then False else st)"
  by (simp add: step_def)

lemma step_replay:
  assumes s: "step isalpha c rest res st = (rest', res @ e, st')"
    and hs: "(0 < skip_hspace tail') = (0 < skip_hspace rest')"
    and nl: "\<not> word_has_lower_russian rest' \<Longrightarrow> \<not> word_has_lower_russian tail'"
    and len: "length tail' = length rest'"
  shows "step isalpha (hd e) (tl e @ tail') res st = (tail', res @ e, st')"
proof -
  consider (pair) "c = sect \<and> rest \<noteq> []"
    | (nl) "c = newline"
    | (punct) "is_sentence_end c"
    | (rus) "is_russian c"
    | (other) "\<not> (c = sect \<and> rest \<noteq> [])" "c \<noteq> newline" "\<not> is_sentence_end c" "\<not> is_russian c"
    by blast
  then show ?thesis
  proof cases
    case pair
    then obtain d r where r: "rest = d # r" by (cases rest) auto
    from s pair have "rest' = r" "e = [sect, d]" "st' = st"
      by (simp_all add: r step_pair)
    then show ?thesis by (simp add: step_pair)
  next
    case nl
    from s nl have "rest' = rest" "e = [newline]" "st' = True"
      by (simp_all add: step_newline)
    then show ?thesis by (simp add: step_newline)
  next
    case punct
    from s punct have r: "rest' = rest" "e = [c]"
      and st': "st' = (if 0 < skip_hspace rest \<and> \<not> abbreviation_before (res @ [c]) then True else st)"
      by (auto simp: step_sentence_end)
    show ?thesis using punct hs by (simp add: r st' step_sentence_end)
  next
    case rus
    let ?x = "if st then upper c
              else if is_russian_upper c \<and> word_has_lower_russian rest then lower c else c"
    from s rus have r: "rest' = rest" "e = [?x]" "st' = False"
      by (simp_all add: step_russian)
    have x: "is_russian ?x" using rus by (simp add: upper_class lower_class)
    have "(if st then upper ?x
           else if is_russian_upper ?x \<and> word_has_lower_russian tail' then lower ?x else ?x) = ?x"
      using rus nl r(1) by (auto simp: upper_upper lower_class)
    then show ?thesis using step_russian [OF x, of isalpha tail' res st] by (simp add: r)
  next
    case other
    from s other have r: "rest' = rest" "e = [c]"
      and st': "st' = (if is_hspace c then st else if isalpha c then False else st)"
      by (auto simp: step_other)
    have "\<not> (c = sect \<and> tail' \<noteq> [])" using other(1) len r(1) by auto
    then show ?thesis using other by (simp add: r st' step_other)
  qed
qed

lemma fix_loop_idem:
  "fix_loop isalpha rest res st = res @ tail \<Longrightarrow> fix_loop isalpha tail res st = res @ tail"
proof (induction isalpha rest res st arbitrary: tail rule: fix_loop.induct)
  case (1 isalpha result st)
  then show ?case by simp
next
  case (2 isalpha c rest result st)
  from "2.prems" obtain rest' e st' tail' where
    s: "step isalpha c rest result st = (rest', result @ e, st')"
    and ne: "e \<noteq> []"
    and l: "fix_loop isalpha rest' (result @ e) st' = (result @ e) @ tail'"
    and len: "length tail' = length rest'"
    and t: "tail = e @ tail'"
    by (rule loop_unfold)
  have ih: "fix_loop isalpha tail' (result @ e) st' = (result @ e) @ tail'"
    using "2.IH" [OF s [symmetric] refl l] .
  obtain x xs where e: "e = x # xs" using ne by (cases e) auto
  have "step isalpha (hd e) (tl e @ tail') result st = (tail', result @ e, st')"
    using s loop_head_hspace [OF l] loop_no_lower [OF l] len by (rule step_replay)
  then have "step isalpha x (xs @ tail') result st = (tail', result @ e, st')"
    by (simp add: e)
  then have "fix_loop isalpha (x # xs @ tail') result st = (result @ e) @ tail'"
    using ih by simp
  then show ?case by (simp add: t e)
qed

lemma fix_sentence_case_idem:
  "fix_sentence_case isalpha (fix_sentence_case isalpha s) = fix_sentence_case isalpha s"
proof (cases "has_russian s")
  case False
  then show ?thesis by (simp add: fix_sentence_case_def)
next
  case True
  obtain tail where t: "fix_loop isalpha s [] True = [] @ tail"
    using fix_loop_append [of isalpha s "[]" True] by auto
  from fix_loop_idem [OF t] t True show ?thesis
    by (simp add: fix_sentence_case_def)
qed

lemma fix_value_idem: "fix_value isalpha (fix_value isalpha d) = fix_value isalpha d"
  by (induction d) (auto simp: fix_sentence_case_idem)


lemma fix_value_skeleton: "skeleton (fix_value isalpha d) = skeleton d"
  by (induction d) auto

subsection \<open>The checked loop computes fix\_sentence\_case\<close>

lemma getitem_nat: "i < length xs \<Longrightarrow> getitem xs (int i) = Inr (xs ! i)"
  by (simp add: getitem_def)

lemma scan_hspace_eq:
  "j \<le> length t \<Longrightarrow> scan_hspace t j = Inr (j + skip_hspace (drop j t))"
proof (induction t j rule: scan_hspace.induct)
  case (1 t j)
  show ?case
  proof (cases "j < length t")
    case False
    then show ?thesis using "1.prems" by (subst scan_hspace.simps) simp
  next
    case True
    then have d: "drop j t = t ! j # drop (Suc j) t" by (simp add: Cons_nth_drop_Suc)
    show ?thesis
    proof (cases "is_hspace (t ! j)")
      case False
      then show ?thesis using True by (subst scan_hspace.simps) (simp add: getitem_nat d)
    next
      case h: True
      have "scan_hspace t (j + 1) = Inr (j + 1 + skip_hspace (drop (j + 1) t))"
        using "1.IH" [OF True getitem_nat [OF True] h] True by simp
      then show ?thesis using True h by (subst scan_hspace.simps) (simp add: getitem_nat d)
    qed
  qed
qed

lemma scan_word_eq:
  "j \<le> length t \<Longrightarrow> scan_word t j = Inr (word_has_lower_russian (drop j t))"
proof (induction t j rule: scan_word.induct)
  case (1 t j)
  show ?case
  proof (cases "j < length t")
    case False
    then show ?thesis using "1.prems" by (subst scan_word.simps) simp
  next
    case True
    then have d: "drop j t = t ! j # drop (Suc j) t" by (simp add: Cons_nth_drop_Suc)
    show ?thesis
    proof (cases "\<not> is_space_or_nl (t ! j) \<and> \<not> is_russian_lower (t ! j)")
      case False
      then show ?thesis using True by (subst scan_word.simps) (auto simp: getitem_nat d)
    next
      case h: True
      have "scan_word t (j + 1) = Inr (word_has_lower_russian (drop (j + 1) t))"
        using "1.IH" [OF True getitem_nat [OF True]] h True by simp
      then show ?thesis using True h by (subst scan_word.simps) (simp add: getitem_nat d)
    qed
  qed
qed

lemma nat_int_pred: "0 < n \<Longrightarrow> nat (int n - 1) = n - 1"
  by simp

lemma lookback_ix_eq: "lookback_ix result = Inr (abbreviation_before result)"
proof -
  consider (short) "length result < 2" | (two) "length result = 2" | (more) "3 \<le> length result"
    by linarith
  then show ?thesis
  proof cases
    case short
    then show ?thesis by (simp add: lookback_ix_def abbreviation_before_def)
  next
    case two
    then show ?thesis by (simp add: lookback_ix_def abbreviation_before_def getitem_def)
  next
    case more
    define m where "m = length result - 3"
    have len: "length result = m + 3" using more by (simp add: m_def)
    have k: "int (length result) - 2 = int (Suc m)" by (simp add: len)
    have k1: "int (Suc m) - 1 = int m" by simp
    have g: "getitem result (int (Suc m)) = Inr (result ! Suc m)"
      by (rule getitem_nat) (simp add: len)
    have g1: "getitem result (int m) = Inr (result ! m)"
      by (rule getitem_nat) (simp add: len)
    have l: "lookback_ix result =
        Inr (if is_russian (result ! Suc m) then is_hspace (result ! m) \<or> is_sentence_end (result ! m) else False)"
      unfolding lookback_ix_def Let_def k k1 g g1 by simp
    have a: "abbreviation_before result =
        (if is_russian (result ! Suc m) then is_hspace (result ! m) \<or> is_sentence_end (result ! m) else False)"
      unfolding abbreviation_before_def Let_def k k1 nat_int by simp
    show ?thesis unfolding l a ..
  qed
qed

lemma step_ix_refine:
  assumes i: "i < length t"
  shows "step_ix isalpha t i res st =
    (case step isalpha (t ! i) (drop (Suc i) t) res st of
       (rest', res', st') \<Rightarrow> Inr (length t - length rest', res', st'))"
proof -
  let ?c = "t ! i" and ?rest = "drop (Suc i) t"
  have g: "getitem t (int i) = Inr ?c" using i by (rule getitem_nat)
  have sh: "scan_hspace t (i + 1) = Inr (i + 1 + skip_hspace ?rest)"
    using i scan_hspace_eq [of "i + 1" t] by simp
  have sw: "scan_word t (i + 1) = Inr (word_has_lower_russian ?rest)"
    using i scan_word_eq [of "i + 1" t] by simp
  have len: "length t - length ?rest = i + 1" using i by simp
  consider (pair) "?c = sect \<and> i + 1 < length t"
    | (nl) "?c = newline"
    | (punct) "is_sentence_end ?c"
    | (rus) "is_russian ?c"
    | (other) "\<not> (?c = sect \<and> i + 1 < length t)" "?c \<noteq> newline" "\<not> is_sentence_end ?c"
        "\<not> is_russian ?c"
    by blast
  then show ?thesis
  proof cases
    case pair
    then have i1: "Suc i < length t" by simp
    have d: "?rest = t ! Suc i # drop (Suc (Suc i)) t"
      using i1 by (simp add: Cons_nth_drop_Suc)
    have g1: "getitem t (int (i + 1)) = Inr (t ! Suc i)"
      using getitem_nat [OF i1] by simp
    have l: "length t - length (drop (Suc (Suc i)) t) = i + 2" using i1 by simp
    have "step isalpha ?c ?rest res st = (drop (Suc (Suc i)) t, res @ [sect, t ! Suc i], st)"
      using pair by (simp only: d) (simp add: step_pair)
    moreover have "step_ix isalpha t i res st = Inr (i + 2, res @ [sect, t ! Suc i], st)"
      using pair unfolding step_ix_def g g1 by simp
    ultimately show ?thesis using l by simp
  next
    case nl
    have ns: "newline \<noteq> sect" by (simp add: char_defs)
    have "step_ix isalpha t i res st = Inr (i + 1, res @ [newline], True)"
      using nl ns unfolding step_ix_def g by simp
    then show ?thesis using nl len by (simp add: step_newline)
  next
    case punct
    then have ns: "?c \<noteq> sect" "?c \<noteq> newline" by (auto simp: char_defs)
    have "step_ix isalpha t i res st =
        Inr (i + 1, res @ [?c],
             if 0 < skip_hspace ?rest \<and> \<not> abbreviation_before (res @ [?c]) then True else st)"
      using punct ns unfolding step_ix_def g sh lookback_ix_eq by simp
    then show ?thesis using punct len by (simp add: step_sentence_end)
  next
    case rus
    note rn = russian_not_special [OF rus]
    have "step_ix isalpha t i res st =
        Inr (i + 1, res @ [if st then upper ?c
                   else if is_russian_upper ?c \<and> word_has_lower_russian ?rest then lower ?c
                   else ?c], False)"
      using rus rn unfolding step_ix_def g sw by simp
    then show ?thesis using rus len by (simp add: step_russian)
  next
    case other
    have r: "\<not> (?c = sect \<and> ?rest \<noteq> [])" using other(1) i by auto
    have "step_ix isalpha t i res st =
        Inr (i + 1, res @ [?c], if is_hspace ?c then st else if isalpha ?c then False else st)"
      using other unfolding step_ix_def g by auto
    then show ?thesis using len by (simp add: step_other [OF r other(2,3,4)])
  qed
qed

lemma step_rest:
  "step isalpha c rest res st = (rest', res', st') \<Longrightarrow> rest' = rest \<or> (rest \<noteq> [] \<and> rest' = tl rest)"
  by (auto simp: step_def Let_def split: if_splits)

lemma loop_ix_refine:
  "i \<le> length t \<Longrightarrow> loop_ix isalpha t i res st = Inr (fix_loop isalpha (drop i t) res st)"
proof (induction isalpha t i res st rule: loop_ix.induct)
  case (1 isalpha t i res st)
  show ?case
  proof (cases "i < length t")
    case False
    then show ?thesis using "1.prems" by (subst loop_ix.simps) simp
  next
    case True
    then have d: "drop i t = t ! i # drop (Suc i) t" by (simp add: Cons_nth_drop_Suc)
    obtain rest' res' st' where s: "step isalpha (t ! i) (drop (Suc i) t) res st = (rest', res', st')"
      by (cases "step isalpha (t ! i) (drop (Suc i) t) res st") auto
    define i' where "i' = length t - length rest'"
    have six: "step_ix isalpha t i res st = Inr (i', res', st')"
      using step_ix_refine [OF True, of isalpha res st] s by (simp add: i'_def)
    have r: "rest' = drop i' t \<and> i' \<le> length t"
    proof -
      from step_rest [OF s] show ?thesis
      proof
        assume "rest' = drop (Suc i) t"
        then show ?thesis using True by (simp add: i'_def)
      next
        assume a: "drop (Suc i) t \<noteq> [] \<and> rest' = tl (drop (Suc i) t)"
        then have "rest' = drop (Suc (Suc i)) t" by (simp add: drop_Suc tl_drop)
        moreover have "Suc i < length t" using a by simp
        ultimately show ?thesis by (simp add: i'_def)
      qed
    qed
    have "loop_ix isalpha t i' res' st' = Inr (fix_loop isalpha (drop i' t) res' st')"
      using "1.IH" [OF True six refl refl] r by simp
    then show ?thesis
      using True six s r by (subst loop_ix.simps) (simp add: d)
  qed
qed

lemma fix_sentence_case_ix_refine:
  "fix_sentence_case_ix isalpha s = Inr (fix_sentence_case isalpha s)"
  by (simp add: fix_sentence_case_ix_def fix_sentence_case_def loop_ix_refine)



lemma step_last:
  "step isalpha c rest res st = (rest', res', st') \<Longrightarrow> last (c # rest) = sect \<Longrightarrow>
   (rest' = [] \<and> last res' = sect) \<or> (rest' \<noteq> [] \<and> last rest' = sect)"
proof -
  assume s: "step isalpha c rest res st = (rest', res', st')" and l: "last (c # rest) = sect"
  have ns: "sect \<noteq> newline" "\<not> is_sentence_end sect" "\<not> is_russian sect"
    by (simp_all add: char_defs)
  show ?thesis
  proof (cases rest)
    case Nil
    with l have c: "c = sect" by simp
    have "step isalpha sect [] res st = ([], res @ [sect], if is_hspace sect then st else if isalpha sect then False else st)"
      using ns by (intro step_other) auto
    with s have "rest' = []" "res' = res @ [sect]" by (simp_all add: c Nil)
    then show ?thesis by simp
  next
    case (Cons d r)
    show ?thesis
    proof (cases "c = sect")
      case True
      with s have "rest' = r" "res' = res @ [sect, d]" by (simp_all add: Cons step_pair)
      then show ?thesis using l by (cases r) (simp_all add: Cons)
    next
      case False
      with s have "rest' = rest" by (auto simp: step_def Let_def split: if_splits)
      then show ?thesis using l by (simp add: Cons)
    qed
  qed
qed

lemma fix_loop_last:
  "rest \<noteq> [] \<Longrightarrow> last rest = sect \<Longrightarrow> last (fix_loop isalpha rest res st) = sect"
proof (induction isalpha rest res st rule: fix_loop.induct)
  case (1 isalpha result st)
  then show ?case by simp
next
  case (2 isalpha c rest result st)
  obtain rest' res' st' where s: "step isalpha c rest result st = (rest', res', st')"
    by (cases "step isalpha c rest result st") auto
  from step_last [OF s "2.prems"(2)] show ?case
  proof
    assume "rest' = [] \<and> last res' = sect"
    then show ?thesis using s by simp
  next
    assume a: "rest' \<noteq> [] \<and> last rest' = sect"
    then have "last (fix_loop isalpha rest' res' st') = sect"
      using "2.IH" [OF s [symmetric] refl] by simp
    then show ?thesis using s by simp
  qed
qed

lemma fix_sentence_case_length: "length (fix_sentence_case isalpha s) = length s"
  using fix_loop_append [of isalpha s "[]" True] by (auto simp: fix_sentence_case_def)

lemma fix_sentence_case_trailing:
  "\<exists>r. fix_sentence_case isalpha (t @ [sect]) = r @ [sect] \<and> length r = length t"
proof -
  let ?o = "fix_sentence_case isalpha (t @ [sect])"
  have len: "length ?o = Suc (length t)" by (simp add: fix_sentence_case_length)
  then have ne: "?o \<noteq> []" by auto
  have "last ?o = sect"
    using fix_loop_last [of "t @ [sect]" isalpha "[]" True] by (simp add: fix_sentence_case_def)
  with ne have "?o = butlast ?o @ [sect]" by (metis append_butlast_last_id)
  moreover have "length (butlast ?o) = length t" using len by simp
  ultimately show ?thesis by blast
qed

lemma step_ix_trailing:
  "\<not> isalpha sect \<Longrightarrow>
   step_ix isalpha (t @ [sect]) (length t) res st = Inr (Suc (length t), res @ [sect], st)"
proof -
  assume a: "\<not> isalpha sect"
  have ns: "sect \<noteq> newline" "\<not> is_sentence_end sect" "\<not> is_russian sect" "\<not> is_hspace sect"
    by (simp_all add: char_defs)
  have "step isalpha sect [] res st = ([], res @ [sect], st)"
    using ns a by (simp add: step_other)
  then show ?thesis
    using step_ix_refine [of "length t" "t @ [sect]" isalpha res st] by simp
qed

lemma at_path_fix_value:
  "at_path (fix_value isalpha d) p = map_option (fix_value isalpha) (at_path d p)"
proof (induction p arbitrary: d)
  case Nil
  then show ?case by simp
next
  case (Cons s p)
  show ?case
  proof (cases s)
    case (Key k)
    show ?thesis
    proof (cases d)
      case (JObj items)
      have "map_of (map (\<lambda>(k, v). (k, fix_value isalpha v)) items) k
            = map_option (fix_value isalpha) (map_of items k)"
        by (induction items) auto
      then show ?thesis using Cons.IH by (simp add: JObj Key split: option.splits)
    qed (simp_all add: Key)
  next
    case (Idx i)
    show ?thesis
    proof (cases d)
      case (JArr xs)
      then show ?thesis using Cons.IH by (simp add: Idx)
    qed (simp_all add: Idx)
  qed
qed

subsection \<open>The claims about the normalizer\<close>

lemma privet_mir_fixed: "fix_sentence_case latin_alpha privet_mir = Privet_Mir"
  unfolding norm_defs by code_simp

text \<open>
  C3 (idempotence). Normalizing a document twice gives what normalizing it once
  gives, and so for a string, whatever \<^verbatim>\<open>str.isalpha\<close> is.
\<close>

theorem normalize_idempotent:
  "fix_value isalpha (fix_value isalpha d) = fix_value isalpha d
   \<and> fix_sentence_case isalpha (fix_sentence_case isalpha s) = fix_sentence_case isalpha s"
  by (simp add: fix_value_idem fix_sentence_case_idem)

theorem normalize_idempotent_witness:
  "fix_value latin_alpha norm_ex
     = JObj [(ustr ''t'', JStr Privet_Mir),
             (ustr ''n'', JArr [JNum 3, JBool True, JNull, JStr (ustr ''ok'')])]
   \<and> fix_value latin_alpha (fix_value latin_alpha norm_ex) = fix_value latin_alpha norm_ex
   \<and> fix_sentence_case latin_alpha Privet_Mir = Privet_Mir"
proof -
  have ok: "fix_sentence_case latin_alpha (ustr ''ok'') = ustr ''ok''"
    unfolding ustr_def by code_simp
  have v: "fix_value latin_alpha norm_ex
     = JObj [(ustr ''t'', JStr Privet_Mir),
             (ustr ''n'', JArr [JNum 3, JBool True, JNull, JStr (ustr ''ok'')])]"
    by (simp add: norm_ex_def privet_mir_fixed ok)
  from normalize_idempotent [of latin_alpha norm_ex privet_mir] v privet_mir_fixed
  show ?thesis by simp
qed







text \<open>
  C6 (format pair). When the scan is at the marker and a character follows, the two
  characters are appended to the result as they are and the scan goes on after them
  with the flag unchanged: the pair stands in the output where it stood in the input.
\<close>

theorem format_pair_passthrough:
  "fix_loop isalpha (sect # d # rest) res st = fix_loop isalpha rest (res @ [sect, d]) st
   \<and> (\<exists>tail. fix_loop isalpha (sect # d # rest) res st = res @ sect # d # tail
         \<and> length tail = length rest)"
proof -
  have l: "fix_loop isalpha (sect # d # rest) res st = fix_loop isalpha rest (res @ [sect, d]) st"
    by (simp add: step_pair)
  from fix_loop_append [of isalpha rest "res @ [sect, d]" st] l show ?thesis by auto
qed

theorem format_pair_passthrough_witness:
  "fix_loop latin_alpha (sect # 1073 # [32, 1040]) [1071] False
     = fix_loop latin_alpha [32, 1040] ([1071] @ [sect, 1073]) False
   \<and> fix_loop latin_alpha (sect # 1073 # [32, 1040]) [1071] False
     = [1071, sect, 1073, 32, 1040]"
proof -
  have e: "fix_loop latin_alpha (sect # 1073 # [32, 1040]) [1071] False
     = [1071, sect, 1073, 32, 1040]" by code_simp
  from format_pair_passthrough [of latin_alpha 1073 "[32, 1040]" "[1071]" False] e
  show ?thesis by blast
qed

theorem format_pair_passthrough_counterexample:
  "fix_sentence_case latin_alpha [1103, 32, 1040, sect, 1073] = [1071, 32, 1072, sect, 1073]
   \<and> fix_sentence_case latin_alpha [1103, 32, 1040, sect, 114] = [1071, 32, 1040, sect, 114]
   \<and> fix_sentence_case latin_alpha [1103, sect, 32, 1090, 46, 32, 1077]
       = [1071, sect, 32, 1090, 46, 32, 1077]
   \<and> fix_sentence_case latin_alpha [1103, sect, 114, 1090, 46, 32, 1077]
       = [1071, sect, 114, 1090, 46, 32, 1045]"
proof -
  have a: "fix_sentence_case latin_alpha [1103, 32, 1040, sect, 1073] = [1071, 32, 1072, sect, 1073]"
    by code_simp
  have b: "fix_sentence_case latin_alpha [1103, 32, 1040, sect, 114] = [1071, 32, 1040, sect, 114]"
    by code_simp
  have c: "fix_sentence_case latin_alpha [1103, sect, 32, 1090, 46, 32, 1077]
       = [1071, sect, 32, 1090, 46, 32, 1077]" by code_simp
  have d: "fix_sentence_case latin_alpha [1103, sect, 114, 1090, 46, 32, 1077]
       = [1071, sect, 114, 1090, 46, 32, 1045]" by code_simp
  from a b c d show ?thesis by blast
qed

text \<open>
  C8 (shape). A normalized document has the shape of the document: the same keys in
  the same order in every dict, the same length in every list, and every leaf that is
  not a string equal; what stands at a path of the normalized document is the
  normalized value of what stands there in the document.
\<close>

theorem normalize_shape:
  "skeleton (fix_value isalpha d) = skeleton d
   \<and> at_path (fix_value isalpha d) p = map_option (fix_value isalpha) (at_path d p)
   \<and> (\<exists>items'. fix_value isalpha (JObj items) = JObj items' \<and> map fst items' = map fst items)
   \<and> (\<exists>xs'. fix_value isalpha (JArr xs) = JArr xs' \<and> length xs' = length xs)
   \<and> (\<exists>s'. fix_value isalpha (JStr s) = JStr s' \<and> length s' = length s)
   \<and> fix_value isalpha (JNum n) = JNum n
   \<and> fix_value isalpha (JBool b) = JBool b
   \<and> fix_value isalpha JNull = JNull"
  by (simp add: fix_value_skeleton at_path_fix_value fix_sentence_case_length
        case_prod_unfold comp_def)

theorem normalize_shape_witness:
  "skeleton (fix_value latin_alpha norm_ex)
     = JObj [(ustr ''t'', JStr []),
             (ustr ''n'', JArr [JNum 3, JBool True, JNull, JStr []])]
   \<and> at_path (fix_value latin_alpha norm_ex) [Key (ustr ''n''), Idx 0] = Some (JNum 3)
   \<and> at_path (fix_value latin_alpha norm_ex) [Key (ustr ''t'')] = Some (JStr Privet_Mir)"
proof -
  have s: "skeleton norm_ex = JObj [(ustr ''t'', JStr []),
             (ustr ''n'', JArr [JNum 3, JBool True, JNull, JStr []])]"
    by (simp add: norm_ex_def)
  have p1: "at_path norm_ex [Key (ustr ''n''), Idx 0] = Some (JNum 3)"
    by (simp add: norm_ex_def ustr_def)
  have p2: "at_path norm_ex [Key (ustr ''t'')] = Some (JStr privet_mir)"
    by (simp add: norm_ex_def ustr_def)
  note sh = normalize_shape [of latin_alpha norm_ex]
  have k: "skeleton (fix_value latin_alpha norm_ex) = skeleton norm_ex"
    by (rule sh [THEN conjunct1])
  have q1: "at_path (fix_value latin_alpha norm_ex) [Key (ustr ''n''), Idx 0]
      = map_option (fix_value latin_alpha) (at_path norm_ex [Key (ustr ''n''), Idx 0])"
    by (rule sh [THEN conjunct2, THEN conjunct1])
  have q2: "at_path (fix_value latin_alpha norm_ex) [Key (ustr ''t'')]
      = map_option (fix_value latin_alpha) (at_path norm_ex [Key (ustr ''t'')])"
    by (rule sh [THEN conjunct2, THEN conjunct1])
  show ?thesis unfolding k q1 q2 s p1 p2 by (simp add: privet_mir_fixed)
qed

text \<open>
  C9 (totality). The scan over indices, with every subscript checked, returns for
  every string and every \<^verbatim>\<open>str.isalpha\<close>: it raises no \<^verbatim>\<open>IndexError\<close>, and
  its value is the value of \<open>fix_sentence_case\<close>, of the length of the input. A string
  that ends with the marker gives a result that ends with the marker; and at a marker
  that is the last character the loop body appends the marker alone and leaves the flag
  as it is (\<^verbatim>\<open>str.isalpha\<close> is false of U+00A7, a punctuation character).
\<close>

theorem normalizer_total:
  "(\<exists>r. fix_sentence_case_ix isalpha s = Inr r \<and> r = fix_sentence_case isalpha s
        \<and> length r = length s)
   \<and> (\<exists>r. fix_sentence_case_ix isalpha (t @ [sect]) = Inr (r @ [sect]) \<and> length r = length t)
   \<and> (\<not> isalpha sect \<longrightarrow>
        step_ix isalpha (t @ [sect]) (length t) res st = Inr (Suc (length t), res @ [sect], st))"
  using fix_sentence_case_trailing [of isalpha t]
  by (auto simp: fix_sentence_case_ix_refine fix_sentence_case_length step_ix_trailing)

theorem normalizer_total_witness:
  "\<not> latin_alpha sect
   \<and> fix_sentence_case_ix latin_alpha ([1103, 32, 1040] @ [sect]) = Inr ([1071, 32, 1040] @ [sect])
   \<and> step_ix latin_alpha ([1103, 32, 1040] @ [sect]) (length [1103, 32, 1040 :: nat]) [1071, 32, 1040] False
       = Inr (Suc (length [1103, 32, 1040 :: nat]), [1071, 32, 1040] @ [sect], False)"
proof -
  have n: "\<not> latin_alpha sect" by (simp add: latin_alpha_def sect_def)
  have e: "fix_sentence_case_ix latin_alpha ([1103, 32, 1040] @ [sect]) = Inr ([1071, 32, 1040] @ [sect])"
    by code_simp
  from normalizer_total [of latin_alpha "[1103, 32, 1040] @ [sect]" "[1103, 32, 1040]"
      "[1071, 32, 1040]" False] n e
  show ?thesis by blast
qed

end
